theory Spec2Isabelle
  imports Main
begin

section \<open>The page agent of the screen scraper (content.js, v3 FIXED)\<close>

text \<open>
  The development follows the second (``v3 FIXED'') content script of \<^verbatim>\<open>src/content.js\<close>:
  the message listener, \<^verbatim>\<open>performSmartScrape\<close>, \<^verbatim>\<open>extractImagesFromDOM\<close>,
  \<^verbatim>\<open>saveToStorage\<close> and \<^verbatim>\<open>isValidImageUrl\<close>.

  JavaScript strings are modelled as \<^typ>\<open>string\<close>: a \<^typ>\<open>char\<close> is a UTF-16 code unit
  below 256, read as the Latin-1 character of that code (\<open>CHR 0xC9\<close> is the capital E
  with acute accent, \<open>CHR 0xA0\<close> the no-break space). The character-level helpers below
  (\<open>\s\<close>, \<open>toLowerCase\<close>) are the JavaScript ones on that range; strings with code units
  from 256 on are outside the model. JavaScript numbers that hold pixel
  counts and epoch milliseconds are modelled as \<^typ>\<open>int\<close>, counters as \<^typ>\<open>nat\<close>.
  What the script reads from the browser (the DOM, the scroll geometry, the clock, the
  extension storage, the \<^verbatim>\<open>URL\<close> parser) is a parameter of the model.
\<close>

subsection \<open>Configuration constants\<close>

definition SCROLL_DELAY :: nat where "SCROLL_DELAY = 500"
definition INITIAL_DELAY :: nat where "INITIAL_DELAY = 500"
definition SCROLL_THRESHOLD :: int where "SCROLL_THRESHOLD = 100"
definition MAX_NO_CONTENT_ATTEMPTS :: nat where "MAX_NO_CONTENT_ATTEMPTS = 2"
definition MAX_RETRY_ATTEMPTS :: nat where "MAX_RETRY_ATTEMPTS = 3"

subsection \<open>String helpers of the JavaScript runtime\<close>

text \<open>\<^verbatim>\<open>s.split(sep)\<close> for a one-character separator: the pieces between the
  separators, in order; the result always has at least one piece.\<close>

fun split :: "char \<Rightarrow> string \<Rightarrow> string list" where
  "split sep [] = [[]]"
| "split sep (c # cs) =
     (if c = sep then [] # split sep cs
      else (case split sep cs of [] \<Rightarrow> [[c]] | p # ps \<Rightarrow> (c # p) # ps))"

text \<open>\<^verbatim>\<open>s.includes(t)\<close>: \<open>t\<close> occurs in \<open>s\<close> as a contiguous substring.\<close>

fun includes_str :: "string \<Rightarrow> string \<Rightarrow> bool" where
  "includes_str [] t = (t = [])"
| "includes_str (c # cs) t = (take (length t) (c # cs) = t \<or> includes_str cs t)"

text \<open>The class \<open>\s\<close> of a regular expression, on code units below 256: tab, line feed,
  vertical tab, form feed, carriage return, space and the no-break space U+00A0.\<close>

definition is_space :: "char \<Rightarrow> bool" where
  "is_space c =
     (c \<in> {CHR 0x09, CHR 0x0A, CHR 0x0B, CHR 0x0C, CHR 0x0D, CHR '' '', CHR 0xA0})"

text \<open>\<^verbatim>\<open>s.replace(/\s+/g, '-')\<close>: every maximal run of whitespace becomes one hyphen.\<close>

function replace_whitespace_runs :: "string \<Rightarrow> string" where
  "replace_whitespace_runs [] = []"
| "replace_whitespace_runs (c # cs) =
     (if is_space c then CHR ''-'' # replace_whitespace_runs (dropWhile is_space cs)
      else c # replace_whitespace_runs cs)"
  by pat_completeness auto
termination
  by (relation "measure length") (auto simp: length_dropWhile_le less_Suc_eq_le)

definition char_code :: "char \<Rightarrow> nat" where
  "char_code c = of_char c"

text \<open>
  \<^verbatim>\<open>toLowerCase\<close> on code units below 256: the letters \<open>A\<close> to \<open>Z\<close> and the Latin-1
  capitals U+00C0 to U+00DE, without the multiplication sign U+00D7, move up by 32; every
  other character stays (the sharp s, the micro sign and the small letters have no
  other lower case).
\<close>

definition lower_char :: "char \<Rightarrow> char" where
  "lower_char c =
     (if (char_code (CHR ''A'') \<le> char_code c \<and> char_code c \<le> char_code (CHR ''Z'')) \<or>
         (0xC0 \<le> char_code c \<and> char_code c \<le> 0xDE \<and> char_code c \<noteq> 0xD7)
      then char_of (char_code c + 32) else c)"

definition toLowerCase :: "string \<Rightarrow> string" where
  "toLowerCase s = map lower_char s"

text \<open>Decimal rendering of a counter inside a template literal.\<close>

fun string_of_nat :: "nat \<Rightarrow> string" where
  "string_of_nat n =
     (if n < 10 then [''0123456789'' ! n]
      else string_of_nat (n div 10) @ [''0123456789'' ! (n mod 10)])"

text \<open>\<^verbatim>\<open>x || d\<close> on strings: the empty string is falsy.\<close>

definition or_else :: "string \<Rightarrow> string \<Rightarrow> string" where
  "or_else x d = (if x = [] then d else x)"

subsection \<open>URL validation\<close>

text \<open>
  \<^verbatim>\<open>new URL(url).protocol\<close> belongs to the browser. It is the parameter \<open>protocol\<close>:
  \<open>protocol url = None\<close> when the constructor throws, and \<open>Some p\<close> when the URL parses
  as an absolute URL with protocol \<open>p\<close> (the scheme followed by a colon).
\<close>

type_synonym url_parser = "string \<Rightarrow> string option"

definition isValidImageUrl :: "url_parser \<Rightarrow> string \<Rightarrow> bool" where
  "isValidImageUrl protocol url =
     (if url = [] then False
      else (case protocol url of
              None \<Rightarrow> False
            | Some p \<Rightarrow> p = ''http:'' \<or> p = ''https:''))"

text \<open>
  A concrete parser for closed examples: the scheme states of the URL standard for an
  input without base URL. The first character is an ASCII letter, the scheme continues
  over letters, digits, \<open>+\<close>, \<open>-\<close> and \<open>.\<close>, a colon ends it, and the scheme is
  lower-cased. The rest of the input is not inspected, so this parser is only used on
  inputs whose rest the browser accepts as well.
\<close>

definition is_alpha :: "char \<Rightarrow> bool" where
  "is_alpha c =
     ((char_code (CHR ''a'') \<le> char_code c \<and> char_code c \<le> char_code (CHR ''z'')) \<or>
      (char_code (CHR ''A'') \<le> char_code c \<and> char_code c \<le> char_code (CHR ''Z'')))"

definition is_scheme_char :: "char \<Rightarrow> bool" where
  "is_scheme_char c =
     (is_alpha c \<or> (char_code (CHR ''0'') \<le> char_code c \<and> char_code c \<le> char_code (CHR ''9'')) \<or>
      c \<in> {CHR ''+'', CHR ''-'', CHR ''.''})"

definition scheme_protocol :: url_parser where
  "scheme_protocol s =
     (case s of
        [] \<Rightarrow> None
      | c # cs \<Rightarrow>
          if is_alpha c then
            (case dropWhile is_scheme_char cs of
               [] \<Rightarrow> None
             | d # _ \<Rightarrow>
                 if d = CHR '':''
                 then Some (toLowerCase (c # takeWhile is_scheme_char cs) @ '':'')
                 else None)
          else None)"

subsection \<open>The message listener\<close>

text \<open>The two module-level flags of the content script.\<close>

record agent =
  isScraping :: bool
  scrapingAborted :: bool

record meta =
  name :: string
  logo :: string
  url :: string

datatype action = Ping | GetMeta | StartScrape | AbortScrape | OtherAction

text \<open>
  What the listener passes to \<^verbatim>\<open>sendResponse\<close> before it returns: nothing
  (\<open>NoResponse\<close>, an unknown action), or one of the response objects. \<open>ScanLaunched\<close>
  stands for the asynchronous case of \<^verbatim>\<open>start_scrape\<close>: the listener returns
  \<^verbatim>\<open>true\<close>, \<^verbatim>\<open>performSmartScrape()\<close> is running and its terminal result is sent later.
\<close>

datatype response =
    NoResponse
  | StatusOk
  | MetaResponse meta
  | MetaError string
  | StatusError string
  | StatusAborted
  | ScanLaunched

text \<open>\<open>page_meta\<close> is what \<^verbatim>\<open>getPageMeta()\<close> yields on the current page: \<open>Inl\<close> its
  exception message, \<open>Inr\<close> the metadata.\<close>

fun onMessage :: "string + meta \<Rightarrow> action \<Rightarrow> agent \<Rightarrow> response \<times> agent" where
  "onMessage page_meta Ping a = (StatusOk, a)"
| "onMessage page_meta GetMeta a =
     (case page_meta of Inr m \<Rightarrow> (MetaResponse m, a) | Inl msg \<Rightarrow> (MetaError msg, a))"
| "onMessage page_meta StartScrape a =
     (if isScraping a then (StatusError ''Scrape already in progress'', a)
      else (ScanLaunched, a\<lparr>isScraping := True, scrapingAborted := False\<rparr>))"
| "onMessage page_meta AbortScrape a =
     (StatusAborted, a\<lparr>scrapingAborted := True, isScraping := False\<rparr>)"
| "onMessage page_meta OtherAction a = (NoResponse, a)"

text \<open>
  The events that touch the flags between two awaits of a running scan: a message
  arrives, or the promise of a launched scan settles (both the \<^verbatim>\<open>then\<close> and the
  \<^verbatim>\<open>catch\<close> callback set \<^verbatim>\<open>isScraping = false\<close>).
\<close>

datatype event = Message action | ScanSettled

fun handle :: "string + meta \<Rightarrow> event \<Rightarrow> agent \<Rightarrow> agent" where
  "handle page_meta (Message act) a = snd (onMessage page_meta act a)"
| "handle page_meta ScanSettled a = a\<lparr>isScraping := False\<rparr>"

definition handle_all :: "string + meta \<Rightarrow> event list \<Rightarrow> agent \<Rightarrow> agent" where
  "handle_all page_meta evs a = fold (handle page_meta) evs a"

subsection \<open>Harvesting image URLs\<close>

text \<open>
  An image element matched by the screen selectors, as far as the script looks at it: its
  \<^verbatim>\<open>src\<close> property and whether \<^verbatim>\<open>img.closest('li')\<close> finds an enclosing list item.
\<close>

record img =
  src :: string
  closest_li :: bool

text \<open>One round of the \<^verbatim>\<open>forEach\<close> in \<^verbatim>\<open>extractImagesFromDOM\<close>; \<open>urls\<close> is the array
  being filled by \<^verbatim>\<open>push\<close>. The piece \<^verbatim>\<open>split('?')[0]\<close> exists by \<open>split_not_Nil\<close>.\<close>

definition extract_image :: "img \<Rightarrow> string list \<Rightarrow> string list" where
  "extract_image i urls =
     (if closest_li i then urls
      else if src i \<noteq> [] \<and> includes_str (src i) ''http''
           then urls @ [hd (split (CHR ''?'') (src i))]
           else urls)"

text \<open>\<open>rawImages\<close> is the result of \<^verbatim>\<open>document.querySelectorAll\<close>, in document order.\<close>

definition extractImagesFromDOM :: "img list \<Rightarrow> string list" where
  "extractImagesFromDOM rawImages = fold extract_image rawImages []"

subsection \<open>The scroll-and-collect loop\<close>

text \<open>
  The variables of \<^verbatim>\<open>performSmartScrape\<close> that live across iterations. \<open>slept\<close> is the
  log of the \<^verbatim>\<open>sleep(ms)\<close> calls made so far, in order: the effect of the awaits.
  The progress notification is fire-and-forget and leaves no trace in this state.
\<close>

record loop_state =
  capturedImages :: "string list"
  scannedUrlSet :: "string set"
  retryCount :: nat
  totalHeight :: int
  noNewContentCount :: nat
  scrollPosition :: int
  slept :: "nat list"

text \<open>The body of \<^verbatim>\<open>newImages.forEach\<close>.\<close>

definition add_url :: "url_parser \<Rightarrow> string \<Rightarrow> loop_state \<Rightarrow> loop_state" where
  "add_url protocol u st =
     (if u \<notin> scannedUrlSet st \<and> isValidImageUrl protocol u
      then st\<lparr>scannedUrlSet := insert u (scannedUrlSet st),
              capturedImages := capturedImages st @ [u]\<rparr>
      else st)"

text \<open>
  What one pass of the loop reads from the page: the cancellation flag at the
  \<^verbatim>\<open>while\<close> test, the outcome of the DOM query (\<open>Inl\<close> the message of the exception it
  throws, \<open>Inr\<close> the matched images), and the scroll geometry. The query is the first
  statement of the \<^verbatim>\<open>try\<close> block, so an exception reaches the \<^verbatim>\<open>catch\<close> block before
  the pass has changed any variable. Between the \<^verbatim>\<open>while\<close> test and the end of the pass
  the script does not await, so every property is read at one instant.
\<close>

record page_obs =
  abort_requested :: bool
  queried :: "string + img list"
  innerHeight :: int
  scrollY :: int
  scrollHeight :: int

datatype step = Continue loop_state | Break loop_state | Throw string

text \<open>The test \<^verbatim>\<open>atBottom\<close> of a pass.\<close>

definition atBottom :: "page_obs \<Rightarrow> bool" where
  "atBottom ob = (innerHeight ob + scrollY ob \<ge> scrollHeight ob - SCROLL_THRESHOLD)"

text \<open>The end of a pass that did not break: scroll by one viewport and wait.\<close>

definition scroll_down :: "int \<Rightarrow> loop_state \<Rightarrow> step" where
  "scroll_down viewportHeight st =
     Continue (st\<lparr>scrollPosition := scrollPosition st + viewportHeight,
                  slept := slept st @ [SCROLL_DELAY]\<rparr>)"

text \<open>The body of the \<^verbatim>\<open>while\<close> loop: the \<^verbatim>\<open>try\<close> block and its \<^verbatim>\<open>catch\<close>.\<close>

definition iteration :: "url_parser \<Rightarrow> int \<Rightarrow> page_obs \<Rightarrow> loop_state \<Rightarrow> step" where
  "iteration protocol viewportHeight ob st =
     (case queried ob of
        Inl msg \<Rightarrow>
          (let st' = st\<lparr>retryCount := retryCount st + 1\<rparr> in
           if retryCount st' \<ge> MAX_RETRY_ATTEMPTS
           then Throw (''Scraping failed after '' @ string_of_nat (retryCount st') @
                       '' retries: '' @ msg)
           else Continue (st'\<lparr>slept := slept st' @ [SCROLL_DELAY * 2]\<rparr>))
      | Inr rawImages \<Rightarrow>
          (let st1 = fold (add_url protocol) (extractImagesFromDOM rawImages) st
           in if atBottom ob then
                (if scrollHeight ob = totalHeight st1 then
                   (let st2 = st1\<lparr>noNewContentCount := noNewContentCount st1 + 1\<rparr> in
                    if noNewContentCount st2 \<ge> MAX_NO_CONTENT_ATTEMPTS then Break st2
                    else scroll_down viewportHeight st2)
                 else scroll_down viewportHeight
                        (st1\<lparr>totalHeight := scrollHeight ob, noNewContentCount := 0\<rparr>))
              else scroll_down viewportHeight st1))"

text \<open>
  How the loop is left: the \<^verbatim>\<open>while\<close> test read a set flag, the \<^verbatim>\<open>break\<close> was
  reached, or the \<^verbatim>\<open>catch\<close> block threw.
\<close>

datatype loop_exit = Cancelled loop_state | Converged loop_state | Fatal string

text \<open>
  The loop over the passes the page allows: one observation per pass. The loop has no
  bound of its own, so the result is \<open>None\<close> when the observations are used up and the
  loop is still running.
\<close>

fun scroll_loop :: "url_parser \<Rightarrow> int \<Rightarrow> page_obs list \<Rightarrow> loop_state \<Rightarrow> loop_exit option" where
  "scroll_loop protocol viewportHeight [] st = None"
| "scroll_loop protocol viewportHeight (ob # obs) st =
     (if abort_requested ob then Some (Cancelled st)
      else (case iteration protocol viewportHeight ob st of
              Continue st' \<Rightarrow> scroll_loop protocol viewportHeight obs st'
            | Break st' \<Rightarrow> Some (Converged st')
            | Throw msg \<Rightarrow> Some (Fatal msg)))"

text \<open>The state before the first pass; \<open>h0\<close> is \<^verbatim>\<open>document.body.scrollHeight\<close> after
  the initial delay.\<close>

definition initial_state :: "int \<Rightarrow> loop_state" where
  "initial_state h0 =
     \<lparr>capturedImages = [], scannedUrlSet = {}, retryCount = 0, totalHeight = h0,
      noNewContentCount = 0, scrollPosition = 0, slept = [INITIAL_DELAY]\<rparr>"

subsection \<open>The store upsert\<close>

record app =
  id' :: string
  name :: string
  logo :: string
  sourceUrl :: string
  screenCount :: nat
  screens :: "string list"
  dateAdded :: int
  dateUpdated :: int

datatype scrape_result =
    Success (count: nat) (appName: string) (isUpdate: bool)
  | Aborted (message: string)
  | Error (message: string)

text \<open>\<^verbatim>\<open>Array.prototype.findIndex\<close>: the first index whose element satisfies the
  predicate; \<open>None\<close> stands for \<open>-1\<close>.\<close>

fun findIndex :: "('a \<Rightarrow> bool) \<Rightarrow> 'a list \<Rightarrow> nat option" where
  "findIndex p [] = None"
| "findIndex p (x # xs) = (if p x then Some 0 else map_option Suc (findIndex p xs))"

text \<open>
  The extension storage is the value stored under the key \<open>apps\<close> (\<open>None\<close> when the key
  is absent) together with a fault: the \<^verbatim>\<open>get\<close> or the \<^verbatim>\<open>set\<close> may reject with a
  message. A rejected \<^verbatim>\<open>set\<close> leaves the stored value as it was.
\<close>

datatype storage_fault = NoFault | GetFails string | SetFails string

text \<open>The \<^verbatim>\<open>catch\<close> block of \<^verbatim>\<open>saveToStorage\<close>: the message of the error it rethrows.\<close>

definition storage_error :: "string \<Rightarrow> string" where
  "storage_error msg =
     (if msg \<noteq> [] \<and> includes_str msg ''QUOTA_BYTES''
      then ''Storage quota exceeded. Try clearing some apps first.''
      else ''Failed to save: '' @ msg)"

text \<open>The identity derived at the top of \<^verbatim>\<open>saveToStorage\<close>; \<open>href\<close> is
  \<^verbatim>\<open>window.location.href\<close> when the save runs.\<close>

definition appId :: "string \<Rightarrow> meta \<Rightarrow> string" where
  "appId href m =
     or_else (last (split (CHR ''/'') href))
             (toLowerCase (replace_whitespace_runs (meta.name m)))"

text \<open>
  The record literal calls \<^verbatim>\<open>Date.now()\<close> twice: \<open>now1\<close> is the reading it takes for
  \<^verbatim>\<open>dateAdded\<close>, \<open>now2\<close> the reading it takes next for \<^verbatim>\<open>dateUpdated\<close>.
\<close>

definition newAppData :: "string \<Rightarrow> int \<Rightarrow> int \<Rightarrow> string list \<Rightarrow> meta \<Rightarrow> app" where
  "newAppData href now1 now2 orderedImages m =
     \<lparr>id' = appId href m, name = meta.name m, logo = meta.logo m, sourceUrl = url m,
      screenCount = length orderedImages, screens = orderedImages,
      dateAdded = now1, dateUpdated = now2\<rparr>"

definition is_duplicate :: "string \<Rightarrow> meta \<Rightarrow> app \<Rightarrow> bool" where
  "is_duplicate href m a = (app.name a = meta.name m \<or> id' a = appId href m)"

definition upsert ::
  "string \<Rightarrow> int \<Rightarrow> int \<Rightarrow> string list \<Rightarrow> meta \<Rightarrow> app list \<Rightarrow> app list" where
  "upsert href now1 now2 orderedImages m apps =
     (case findIndex (is_duplicate href m) apps of
        Some existingIndex \<Rightarrow>
          apps[existingIndex :=
                 (newAppData href now1 now2 orderedImages m)
                   \<lparr>dateAdded := dateAdded (apps ! existingIndex)\<rparr>]
      | None \<Rightarrow> newAppData href now1 now2 orderedImages m # apps)"

text \<open>\<^verbatim>\<open>data.apps || []\<close>: an absent key reads as the empty sequence.\<close>

definition stored_apps :: "app list option \<Rightarrow> app list" where
  "stored_apps stored = (case stored of None \<Rightarrow> [] | Some apps \<Rightarrow> apps)"

text \<open>
  \<^verbatim>\<open>saveToStorage\<close>: \<open>Inl\<close> is the message of the error it throws, \<open>Inr\<close> its result
  and the stored value after the write. The record literal, the duplicate test and the
  update-or-unshift of its body are the definitions \<open>newAppData\<close>, \<open>is_duplicate\<close> and
  \<open>upsert\<close> above.
\<close>

definition saveToStorage ::
  "string \<Rightarrow> int \<Rightarrow> int \<Rightarrow> storage_fault \<Rightarrow> app list option \<Rightarrow> string list \<Rightarrow> meta
   \<Rightarrow> string + (scrape_result \<times> app list option)" where
  "saveToStorage href now1 now2 fault stored orderedImages m =
     (case fault of
        GetFails msg \<Rightarrow> Inl (storage_error msg)
      | SetFails msg \<Rightarrow> Inl (storage_error msg)
      | NoFault \<Rightarrow>
          (let apps = stored_apps stored
           in Inr (Success (length orderedImages) (meta.name m)
                     (findIndex (is_duplicate href m) apps \<noteq> None),
                   Some (upsert href now1 now2 orderedImages m apps))))"

subsection \<open>The scan\<close>

text \<open>
  \<^verbatim>\<open>performSmartScrape\<close>: the result object it resolves with and the stored value
  afterwards, or \<open>None\<close> when the loop is still running after the given observations.
  \<open>m\<close> is the result of \<^verbatim>\<open>getPageMeta()\<close> before scrolling. The flag test after the loop
  reads what the loop's exit read: no await lies between them.
\<close>

definition performSmartScrape ::
  "url_parser \<Rightarrow> meta \<Rightarrow> int \<Rightarrow> int \<Rightarrow> page_obs list \<Rightarrow> string \<Rightarrow> int \<Rightarrow> int
   \<Rightarrow> storage_fault \<Rightarrow> app list option \<Rightarrow> (scrape_result \<times> app list option) option" where
  "performSmartScrape protocol m h0 viewportHeight obs href now1 now2 fault stored =
     (if meta.name m = [] then Some (Error ''Could not detect app name'', stored)
      else
        (case scroll_loop protocol viewportHeight obs (initial_state h0) of
           None \<Rightarrow> None
         | Some (Fatal msg) \<Rightarrow> Some (Error (or_else msg ''Unknown scraping error''), stored)
         | Some (Cancelled st) \<Rightarrow> Some (Aborted ''Scrape cancelled by user'', stored)
         | Some (Converged st) \<Rightarrow>
             if length (capturedImages st) = 0
             then Some (Error ''No screens found. This might not be a valid Mobbin app page.'',
                        stored)
             else
               (case saveToStorage href now1 now2 fault stored (capturedImages st) m of
                  Inl msg \<Rightarrow> Some (Error (or_else msg ''Unknown scraping error''), stored)
                | Inr r \<Rightarrow> Some r)))"

subsection \<open>The scan and the listener\<close>

text \<open>
  The listener runs only while the scan awaits. A timeline gives, for every pass of one
  scan, the events the listener handles during the await before the \<^verbatim>\<open>while\<close> test of
  the pass, and what the pass reads from the page; the flag the test reads is the
  listener's \<open>scrapingAborted\<close> at that moment. \<open>passes_seen\<close> is the run of passes the
  scan sees, \<open>a\<close> the flags when the timeline starts.
\<close>

fun passes_seen :: "string + meta \<Rightarrow> agent \<Rightarrow> (event list \<times> page_obs) list \<Rightarrow> page_obs list" where
  "passes_seen page_meta a [] = []"
| "passes_seen page_meta a ((evs, ob) # timeline) =
     ob\<lparr>abort_requested := scrapingAborted (handle_all page_meta evs a)\<rparr>
       # passes_seen page_meta (handle_all page_meta evs a) timeline"

text \<open>The flags right after a \<^verbatim>\<open>start_scrape\<close> has been accepted.\<close>

definition scanning :: agent where
  "scanning = \<lparr>isScraping = True, scrapingAborted = False\<rparr>"

section \<open>Notions of the specification\<close>

text \<open>The first occurrence of every element, in order; later occurrences are dropped.\<close>

fun dedupe_preserving_first_occurrence :: "'a list \<Rightarrow> 'a list" where
  "dedupe_preserving_first_occurrence [] = []"
| "dedupe_preserving_first_occurrence (x # xs) =
     x # dedupe_preserving_first_occurrence (filter (\<lambda>y. y \<noteq> x) xs)"

text \<open>The batches harvested during a run: one per pass whose DOM query returned.\<close>

definition query_fails :: "page_obs \<Rightarrow> bool" where
  "query_fails ob = (case queried ob of Inl msg \<Rightarrow> True | Inr rawImages \<Rightarrow> False)"

definition batch_of :: "page_obs \<Rightarrow> string list list" where
  "batch_of ob =
     (case queried ob of Inl msg \<Rightarrow> [] | Inr rawImages \<Rightarrow> [extractImagesFromDOM rawImages])"

definition batches :: "page_obs list \<Rightarrow> string list list" where
  "batches obs = concat (map batch_of obs)"

text \<open>A stretch of passes during which the page is at its bottom with scrollable
  height \<open>h\<close>.\<close>

definition stable_at_bottom :: "int \<Rightarrow> page_obs list \<Rightarrow> bool" where
  "stable_at_bottom h obs = list_all (\<lambda>ob. atBottom ob \<and> scrollHeight ob = h) obs"

text \<open>The store invariant: no two entries share a name, no two entries share an id.\<close>

definition no_shared_name_or_id :: "app list \<Rightarrow> bool" where
  "no_shared_name_or_id apps = (distinct (map app.name apps) \<and> distinct (map id' apps))"

text \<open>
  The path segments of an absolute URL \<open>scheme://authority/path?query#fragment\<close>, as the
  specification speaks of them: the pieces of the path between slashes.
\<close>

fun after_scheme :: "string \<Rightarrow> string" where
  "after_scheme (a # b # c # rest) =
     (if [a, b, c] = ''://'' then rest else after_scheme (b # c # rest))"
| "after_scheme s = []"

definition pathname :: "string \<Rightarrow> string" where
  "pathname u =
     dropWhile (\<lambda>c. c \<noteq> CHR ''/'')
       (takeWhile (\<lambda>c. c \<noteq> CHR ''?'' \<and> c \<noteq> CHR ''#'') (after_scheme u))"

definition path_segments :: "string \<Rightarrow> string list" where
  "path_segments u = filter (\<lambda>seg. seg \<noteq> []) (split (CHR ''/'') (pathname u))"

text \<open>The identity as the specification words it: the last non-empty path segment,
  and the slug of the name only when there is none.\<close>

definition spec_id :: "string \<Rightarrow> meta \<Rightarrow> string" where
  "spec_id href m =
     (if path_segments href \<noteq> [] then last (path_segments href)
      else toLowerCase (replace_whitespace_runs (meta.name m)))"

text \<open>The number of passes of a run whose DOM query threw.\<close>

definition failed_queries :: "page_obs list \<Rightarrow> nat" where
  "failed_queries obs = length (filter query_fails obs)"

text \<open>
  The loop invariant behind the order of the captured screens: after the URLs \<open>us\<close> have
  been offered, \<open>capturedImages\<close> holds the first occurrences of the valid ones and
  \<open>scannedUrlSet\<close> holds the same URLs.
\<close>

definition collected :: "url_parser \<Rightarrow> string list \<Rightarrow> loop_state \<Rightarrow> bool" where
  "collected protocol us st =
     (capturedImages st =
        dedupe_preserving_first_occurrence (filter (isValidImageUrl protocol) us) \<and>
      scannedUrlSet st = set (capturedImages st))"

text \<open>
  A measure of how near the loop is to an exit while the page is at its bottom with
  height \<open>h\<close>: the failed queries so far (two are tolerated), whether \<open>h\<close> has been
  recorded, and whether one stagnant pass has been counted.
\<close>

definition exit_progress :: "int \<Rightarrow> loop_state \<Rightarrow> nat" where
  "exit_progress h st =
     min 2 (retryCount st) +
     (if totalHeight st = h then 1 + min 1 (noNewContentCount st) else 0)"

section \<open>Concrete pages and stores\<close>

text \<open>An image outside any list item, and a pass that is not cancelled.\<close>

definition screen :: "string \<Rightarrow> img" where
  "screen u = \<lparr>src = u, closest_li = False\<rparr>"

definition pass :: "string + img list \<Rightarrow> int \<Rightarrow> int \<Rightarrow> int \<Rightarrow> page_obs" where
  "pass q ih y h =
     \<lparr>abort_requested = False, queried = q, innerHeight = ih, scrollY = y, scrollHeight = h\<rparr>"

definition cancelled_pass :: page_obs where
  "cancelled_pass =
     \<lparr>abort_requested = True, queried = Inr [], innerHeight = 800, scrollY = 200,
      scrollHeight = 1000\<rparr>"

text \<open>The address of an inline SVG sizer image: a \<open>data:\<close> URL that names the SVG
  namespace, and so contains \<open>http\<close>.\<close>

definition svg_sizer :: string where
  "svg_sizer = ''data:image/svg+xml,%3csvg%20xmlns=%27http://www.w3.org/2000/svg%27/%3e''"

text \<open>A page of one viewport whose two passes overlap; the first pass sees the sizer.\<close>

definition overlapping_passes :: "page_obs list" where
  "overlapping_passes =
     [pass (Inr [screen ''https://cdn.example.com/1.png?w=640'',
                 screen svg_sizer]) 800 0 800,
      pass (Inr [screen ''https://cdn.example.com/1.png?w=320'',
                 screen ''https://cdn.example.com/2.png'']) 800 0 800]"

text \<open>A page of height 1000 under a viewport of 800, before the first scroll.\<close>

definition top_pass :: page_obs where
  "top_pass = pass (Inr [screen ''https://cdn.example.com/1.png'']) 800 0 1000"

text \<open>
  A page that was 820 high when the scan started and is 850 high from the first pass on:
  the first pass reads it unscrolled, the later ones scrolled to its end. All are within
  the threshold of the bottom. In \<open>grown_failing_pass\<close> the query throws.
\<close>

definition grown_first_pass :: page_obs where
  "grown_first_pass = pass (Inr [screen ''https://cdn.example.com/1.png'']) 800 0 850"

definition grown_pass :: page_obs where
  "grown_pass = pass (Inr [screen ''https://cdn.example.com/1.png'']) 800 50 850"

definition grown_failing_pass :: page_obs where
  "grown_failing_pass = pass (Inl ''The operation is insecure.'') 800 50 850"

text \<open>A page of one viewport with one screen image, and a pass on it whose query throws.\<close>

definition short_pass :: page_obs where
  "short_pass = pass (Inr [screen ''https://cdn.example.com/1.png'']) 800 0 800"

definition failing_pass :: page_obs where
  "failing_pass = pass (Inl ''The operation is insecure.'') 800 0 800"

text \<open>A page of one viewport without any screen image.\<close>

definition empty_pass :: page_obs where
  "empty_pass = pass (Inr []) 800 0 800"

text \<open>A page of one viewport with two screen images whose addresses have a fragment.\<close>

definition fragment_pass :: page_obs where
  "fragment_pass = pass (Inr [screen ''https://cdn.example.com/a1.png?w=640#v2'',
                              screen ''https://cdn.example.com/a2.png#v2'']) 800 0 800"

text \<open>
  A scan of the one-viewport page during which the user aborts and at once starts
  again: both messages are handled during the wait after the first pass.
\<close>

definition abort_then_restart :: "(event list \<times> page_obs) list" where
  "abort_then_restart =
     [([], short_pass), ([Message AbortScrape, Message StartScrape], short_pass)]"

text \<open>A name with a Latin-1 capital and a no-break space: the capital E with acute
  accent, \<open>VIAN\<close>, a no-break space, \<open>Water\<close>.\<close>

definition evian_meta :: meta where
  "evian_meta =
     \<lparr>meta.name = CHR 0xC9 # ''VIAN'' @ CHR 0xA0 # ''Water'',
      meta.logo = ''https://cdn.example.com/evian.png'', url = ''https://mobbin.com/''\<rparr>"

text \<open>
  A store of two collections and the metadata of the pages they come from. Spotify was
  saved first, from an address ending in \<open>screens\<close>, then Airbnb from an address ending
  in \<open>airbnb\<close>.
\<close>

definition airbnb :: app where
  "airbnb =
     \<lparr>id' = ''airbnb'', name = ''Airbnb'', logo = ''https://cdn.example.com/airbnb.png'',
      sourceUrl = ''https://mobbin.com/apps/airbnb'', screenCount = 1,
      screens = [''https://cdn.example.com/a1.png''], dateAdded = 2000, dateUpdated = 2000\<rparr>"

definition spotify :: app where
  "spotify =
     \<lparr>id' = ''screens'', name = ''Spotify'', logo = ''https://cdn.example.com/spotify.png'',
      sourceUrl = ''https://mobbin.com/apps/spotify/screens'', screenCount = 1,
      screens = [''https://cdn.example.com/s1.png''], dateAdded = 1000, dateUpdated = 1000\<rparr>"

definition spotify_screens_meta :: meta where
  "spotify_screens_meta =
     \<lparr>meta.name = ''Spotify'', meta.logo = ''https://cdn.example.com/spotify.png'',
      url = ''https://mobbin.com/apps/spotify/screens''\<rparr>"

definition airbnb_first_meta :: meta where
  "airbnb_first_meta =
     \<lparr>meta.name = ''Airbnb'', meta.logo = ''https://cdn.example.com/airbnb.png'',
      url = ''https://mobbin.com/apps/airbnb''\<rparr>"

definition airbnb_meta :: meta where
  "airbnb_meta =
     \<lparr>meta.name = ''Airbnb'', meta.logo = ''https://cdn.example.com/airbnb.png'',
      url = ''https://mobbin.com/apps/airbnb/screens''\<rparr>"


definition foo_bar_meta :: meta where
  "foo_bar_meta =
     \<lparr>meta.name = ''Foo Bar'', meta.logo = ''https://cdn.example.com/foo.png'',
      url = ''https://mobbin.com/apps/foo/''\<rparr>"

section \<open>Theorems\<close>

subsection \<open>Strings\<close>

lemma split_not_Nil: "split sep s \<noteq> []"
  by (induction s) (auto split: list.splits)

subsection \<open>The message listener\<close>






subsection \<open>First-seen order of the captured screens\<close>

lemma set_dedupe: "set (dedupe_preserving_first_occurrence xs) = set xs"
  by (induction xs rule: dedupe_preserving_first_occurrence.induct) auto

lemma distinct_dedupe: "distinct (dedupe_preserving_first_occurrence xs)"
  by (induction xs rule: dedupe_preserving_first_occurrence.induct) (auto simp: set_dedupe)

lemma dedupe_snoc:
  "dedupe_preserving_first_occurrence (xs @ [u]) =
     (if u \<in> set xs then dedupe_preserving_first_occurrence xs
      else dedupe_preserving_first_occurrence xs @ [u])"
  by (induction xs rule: dedupe_preserving_first_occurrence.induct) auto

lemma collected_add_url:
  "collected P us st \<Longrightarrow> collected P (us @ [u]) (add_url P u st)"
  by (auto simp: collected_def add_url_def dedupe_snoc set_dedupe)

lemma collected_fold:
  "collected P us st \<Longrightarrow> collected P (us @ batch) (fold (add_url P) batch st)"
proof (induction batch arbitrary: us st)
  case Nil
  then show ?case by simp
next
  case (Cons u batch)
  from Cons.prems have "collected P (us @ [u]) (add_url P u st)"
    by (rule collected_add_url)
  from Cons.IH [OF this] show ?case by simp
qed

lemma fold_add_url_counters:
  "retryCount (fold (add_url P) batch st) = retryCount st"
  "totalHeight (fold (add_url P) batch st) = totalHeight st"
  "noNewContentCount (fold (add_url P) batch st) = noNewContentCount st"
  "scrollPosition (fold (add_url P) batch st) = scrollPosition st"
  "slept (fold (add_url P) batch st) = slept st"
  by (induction batch arbitrary: st) (simp_all add: add_url_def)

lemma collected_other_fields:
  "collected P vs s \<Longrightarrow> collected P vs (s\<lparr>noNewContentCount := n\<rparr>)"
  "collected P vs s \<Longrightarrow> collected P vs (s\<lparr>totalHeight := h, noNewContentCount := n\<rparr>)"
  "collected P vs s \<Longrightarrow> collected P vs (s\<lparr>scrollPosition := q, slept := w\<rparr>)"
  "collected P vs s \<Longrightarrow> collected P vs (s\<lparr>retryCount := r\<rparr>)"
  "collected P vs s \<Longrightarrow> collected P vs (s\<lparr>slept := w\<rparr>)"
  by (simp_all add: collected_def)

lemma iteration_collected:
  assumes "collected P us st"
  shows "iteration P vh ob st = Continue st' \<Longrightarrow> collected P (us @ concat (batch_of ob)) st'"
    and "iteration P vh ob st = Break st' \<Longrightarrow> collected P (us @ concat (batch_of ob)) st'"
proof -
  have c: "collected P (us @ b) (fold (add_url P) b st)" for b
    using assms by (rule collected_fold)
  show "iteration P vh ob st = Continue st' \<Longrightarrow> collected P (us @ concat (batch_of ob)) st'"
    using assms c
    by (cases "queried ob")
       (auto simp: iteration_def batch_of_def scroll_down_def Let_def collected_other_fields
             split: if_splits)
  show "iteration P vh ob st = Break st' \<Longrightarrow> collected P (us @ concat (batch_of ob)) st'"
    using assms c
    by (cases "queried ob")
       (auto simp: iteration_def batch_of_def scroll_down_def Let_def collected_other_fields
             split: if_splits)
qed

lemma scroll_loop_collected:
  assumes "collected P us st"
    and "scroll_loop P vh obs st = Some (Converged st')"
    and "scroll_loop P vh (butlast obs) st = None"
  shows "collected P (us @ concat (batches obs)) st'"
  using assms
proof (induction obs arbitrary: us st)
  case Nil
  then show ?case by simp
next
  case (Cons ob obs)
  from Cons.prems(2) have na: "\<not> abort_requested ob" by (auto split: if_splits)
  show ?case
  proof (cases "iteration P vh ob st")
    case (Continue s1)
    with Cons.prems(2) na have run: "scroll_loop P vh obs s1 = Some (Converged st')" by simp
    then have "obs \<noteq> []" by auto
    with Cons.prems(3) na Continue have "scroll_loop P vh (butlast obs) s1 = None" by simp
    moreover from Cons.prems(1) Continue have "collected P (us @ concat (batch_of ob)) s1"
      by (rule iteration_collected(1))
    ultimately have "collected P ((us @ concat (batch_of ob)) @ concat (batches obs)) st'"
      using run Cons.IH by blast
    then show ?thesis by (simp add: batches_def)
  next
    case (Break s1)
    with Cons.prems(2) na have eq: "s1 = st'" by simp
    have "obs = []"
    proof (rule ccontr)
      assume "obs \<noteq> []"
      with Cons.prems(3) na Break show False by simp
    qed
    moreover from Cons.prems(1) Break have "collected P (us @ concat (batch_of ob)) s1"
      by (rule iteration_collected(2))
    ultimately show ?thesis using eq by (simp add: batches_def)
  next
    case (Throw msg)
    with Cons.prems(2) na show ?thesis by simp
  qed
qed

text \<open>
  Claim C1, as the code has it. Take a run of the loop that leaves by convergence at its
  last pass. The batches of the run are what \<^verbatim>\<open>extractImagesFromDOM\<close> returned in the passes
  whose query did not throw. The captured sequence is the
  deduplication-preserving-first-occurrence of those URLs of the concatenated batches
  that \<^verbatim>\<open>isValidImageUrl\<close> accepts: every accepted URL once, at the place of its first
  occurrence, whatever later batches list again. This sequence is what the scan hands to
  \<^verbatim>\<open>saveToStorage\<close>.
\<close>

theorem captured_is_first_seen_valid:
  assumes "scroll_loop P vh obs (initial_state h0) = Some (Converged st)"
    and "scroll_loop P vh (butlast obs) (initial_state h0) = None"
  shows "capturedImages st =
           dedupe_preserving_first_occurrence
             (filter (isValidImageUrl P) (concat (batches obs)))
         \<and> distinct (capturedImages st)
         \<and> (meta.name m \<noteq> [] \<and> capturedImages st \<noteq> [] \<longrightarrow>
            performSmartScrape P m h0 vh obs href now1 now2 fault stored =
              (case saveToStorage href now1 now2 fault stored
                      (dedupe_preserving_first_occurrence
                         (filter (isValidImageUrl P) (concat (batches obs)))) m of
                 Inl msg \<Rightarrow> Some (Error (or_else msg ''Unknown scraping error''), stored)
               | Inr r \<Rightarrow> Some r))"
proof -
  have "collected P [] (initial_state h0)"
    by (simp add: collected_def initial_state_def)
  from scroll_loop_collected [OF this assms]
  have cap: "capturedImages st =
           dedupe_preserving_first_occurrence
             (filter (isValidImageUrl P) (concat (batches obs)))"
    by (simp add: collected_def)
  then have "distinct (capturedImages st)"
    by (simp add: distinct_dedupe)
  moreover have "meta.name m \<noteq> [] \<and> capturedImages st \<noteq> [] \<longrightarrow>
            performSmartScrape P m h0 vh obs href now1 now2 fault stored =
              (case saveToStorage href now1 now2 fault stored (capturedImages st) m of
                 Inl msg \<Rightarrow> Some (Error (or_else msg ''Unknown scraping error''), stored)
               | Inr r \<Rightarrow> Some r)"
    using assms(1) by (simp add: performSmartScrape_def)
  ultimately show ?thesis using cap by simp
qed

theorem captured_is_first_seen_valid_witness:
  "scroll_loop scheme_protocol 800 overlapping_passes (initial_state 800) =
     Some (Converged
       \<lparr>capturedImages = [''https://cdn.example.com/1.png'', ''https://cdn.example.com/2.png''],
        scannedUrlSet = {''https://cdn.example.com/1.png'', ''https://cdn.example.com/2.png''},
        retryCount = 0, totalHeight = 800, noNewContentCount = 2, scrollPosition = 800,
        slept = [500, 500]\<rparr>)
   \<and> [''https://cdn.example.com/1.png'', ''https://cdn.example.com/2.png''] =
       dedupe_preserving_first_occurrence
         (filter (isValidImageUrl scheme_protocol) (concat (batches overlapping_passes)))"
proof -
  have run: "scroll_loop scheme_protocol 800 overlapping_passes (initial_state 800) =
     Some (Converged
       \<lparr>capturedImages = [''https://cdn.example.com/1.png'', ''https://cdn.example.com/2.png''],
        scannedUrlSet = {''https://cdn.example.com/1.png'', ''https://cdn.example.com/2.png''},
        retryCount = 0, totalHeight = 800, noNewContentCount = 2, scrollPosition = 800,
        slept = [500, 500]\<rparr>)"
    by code_simp
  have running: "scroll_loop scheme_protocol 800 (butlast overlapping_passes) (initial_state 800) = None"
    by code_simp
  from captured_is_first_seen_valid [OF run running] run show ?thesis
    by simp
qed

text \<open>
  Claim C1 as stated fails: a batch can hold an address that \<^verbatim>\<open>isValidImageUrl\<close>
  rejects. The run below harvests the batches \<open>[1.png, data:\<dots>]\<close> and \<open>[1.png, 2.png]\<close>;
  the deduplicated concatenation has three URLs, the captured sequence has two.
\<close>

theorem captured_is_not_all_harvested:
  "scroll_loop scheme_protocol 800 overlapping_passes (initial_state 800) =
     Some (Converged
       \<lparr>capturedImages = [''https://cdn.example.com/1.png'', ''https://cdn.example.com/2.png''],
        scannedUrlSet = {''https://cdn.example.com/1.png'', ''https://cdn.example.com/2.png''},
        retryCount = 0, totalHeight = 800, noNewContentCount = 2, scrollPosition = 800,
        slept = [500, 500]\<rparr>)
   \<and> batches overlapping_passes =
       [[''https://cdn.example.com/1.png'', svg_sizer],
        [''https://cdn.example.com/1.png'', ''https://cdn.example.com/2.png'']]
   \<and> dedupe_preserving_first_occurrence (concat (batches overlapping_passes)) =
       [''https://cdn.example.com/1.png'', svg_sizer, ''https://cdn.example.com/2.png'']
   \<and> includes_str svg_sizer ''http''
   \<and> scheme_protocol svg_sizer = Some ''data:''
   \<and> \<not> isValidImageUrl scheme_protocol svg_sizer"
  by code_simp

subsection \<open>Convergence of the loop\<close>

lemma scroll_loop_prefix_Some:
  "scroll_loop P vh pre st = Some e \<Longrightarrow> scroll_loop P vh (pre @ rest) st = Some e"
  by (induction pre arbitrary: st) (auto split: step.splits if_splits)

lemma iteration_retryCount:
  "iteration P vh ob st = Continue st' \<Longrightarrow>
   retryCount st' = retryCount st + (if query_fails ob then 1 else 0)"
  by (cases "queried ob")
     (auto simp: iteration_def query_fails_def Let_def scroll_down_def fold_add_url_counters
           split: if_splits)

text \<open>While the loop runs it is in some state, from which the remaining passes go on;
  \<open>retryCount\<close> has counted the failed queries so far.\<close>

lemma scroll_loop_running:
  "scroll_loop P vh pre st = None \<Longrightarrow>
   \<exists>st'. retryCount st' = retryCount st + failed_queries pre \<and>
         (\<forall>rest. scroll_loop P vh (pre @ rest) st = scroll_loop P vh rest st')"
proof (induction pre arbitrary: st)
  case Nil
  then show ?case by (auto simp: failed_queries_def)
next
  case (Cons ob pre)
  from Cons.prems have na: "\<not> abort_requested ob" by (auto split: if_splits)
  with Cons.prems obtain s1 where s1: "iteration P vh ob st = Continue s1"
     and run: "scroll_loop P vh pre s1 = None"
    by (auto split: step.splits)
  from Cons.IH [OF run] obtain st' where
    st': "retryCount st' = retryCount s1 + failed_queries pre"
         "\<forall>rest. scroll_loop P vh (pre @ rest) s1 = scroll_loop P vh rest st'"
    by blast
  from s1 have "retryCount s1 = retryCount st + (if query_fails ob then 1 else 0)"
    by (rule iteration_retryCount)
  with st' have "retryCount st' = retryCount st + failed_queries (ob # pre)"
    by (simp add: failed_queries_def)
  moreover from st' s1 na have
    "\<forall>rest. scroll_loop P vh ((ob # pre) @ rest) st = scroll_loop P vh rest st'"
    by simp
  ultimately show ?case by blast
qed

lemma iteration_at_bottom:
  assumes "queried ob = Inr raw" and "atBottom ob"
  shows "\<exists>st'. (iteration P vh ob st = Break st' \<or>
               (iteration P vh ob st = Continue st' \<and> totalHeight st' = scrollHeight ob \<and>
                (scrollHeight ob = totalHeight st \<longrightarrow>
                   noNewContentCount st' = noNewContentCount st + 1)))"
  using assms
  by (auto simp: iteration_def Let_def scroll_down_def fold_add_url_counters)

lemma iteration_stagnant:
  assumes "queried ob = Inr raw" and "atBottom ob" and "scrollHeight ob = totalHeight st"
    and "noNewContentCount st \<ge> 1"
  shows "\<exists>st'. iteration P vh ob st = Break st'"
  using assms
  by (auto simp: iteration_def Let_def scroll_down_def fold_add_url_counters
                 MAX_NO_CONTENT_ATTEMPTS_def)

lemma three_stable_passes:
  assumes "stable_at_bottom h [o1, o2, o3]"
    and "\<not> query_fails o1" "\<not> query_fails o2" "\<not> query_fails o3"
  shows "scroll_loop P vh [o1, o2, o3] st \<noteq> None"
proof -
  from assms obtain r1 r2 r3 where
    q: "queried o1 = Inr r1" "queried o2 = Inr r2" "queried o3 = Inr r3"
    by (auto simp: query_fails_def split: sum.splits)
  from assms(1) have b: "atBottom o1" "atBottom o2" "atBottom o3"
    and h: "scrollHeight o1 = h" "scrollHeight o2 = h" "scrollHeight o3 = h"
    by (simp_all add: stable_at_bottom_def)
  show ?thesis
  proof (cases "abort_requested o1")
    case True
    then show ?thesis by simp
  next
    case a1: False
    from iteration_at_bottom [OF q(1) b(1), of P vh st] obtain s1 where
      s1: "iteration P vh o1 st = Break s1 \<or>
           (iteration P vh o1 st = Continue s1 \<and> totalHeight s1 = h)"
      using h by auto
    then show ?thesis
    proof
      assume "iteration P vh o1 st = Break s1"
      with a1 show ?thesis by simp
    next
      assume c1: "iteration P vh o1 st = Continue s1 \<and> totalHeight s1 = h"
      show ?thesis
      proof (cases "abort_requested o2")
        case True
        with a1 c1 show ?thesis by simp
      next
        case a2: False
        from iteration_at_bottom [OF q(2) b(2), of P vh s1] obtain s2 where
          s2: "iteration P vh o2 s1 = Break s2 \<or>
               (iteration P vh o2 s1 = Continue s2 \<and> totalHeight s2 = h \<and>
                noNewContentCount s2 = noNewContentCount s1 + 1)"
          using h c1 by auto
        then show ?thesis
        proof
          assume "iteration P vh o2 s1 = Break s2"
          with a1 a2 c1 show ?thesis by simp
        next
          assume c2: "iteration P vh o2 s1 = Continue s2 \<and> totalHeight s2 = h \<and>
                noNewContentCount s2 = noNewContentCount s1 + 1"
          show ?thesis
          proof (cases "abort_requested o3")
            case True
            with a1 a2 c1 c2 show ?thesis by simp
          next
            case a3: False
            from c2 have "noNewContentCount s2 \<ge> 1" by simp
            with iteration_stagnant [OF q(3) b(3), of s2 P vh] h c2
            obtain s3 where "iteration P vh o3 s2 = Break s3" by auto
            with a1 a2 a3 c1 c2 show ?thesis by simp
          qed
        qed
      qed
    qed
  qed
qed

lemma exit_within_three_stable_passes:
  assumes "stable_at_bottom h [o1, o2, o3]"
    and "\<not> query_fails o1" "\<not> query_fails o2" "\<not> query_fails o3"
  shows "scroll_loop P vh (pre @ [o1, o2, o3] @ rest) st \<noteq> None"
proof (cases "scroll_loop P vh pre st")
  case (Some e)
  then show ?thesis by (simp add: scroll_loop_prefix_Some)
next
  case None
  then obtain s where s: "\<And>r. scroll_loop P vh (pre @ r) st = scroll_loop P vh r s"
    using scroll_loop_running by blast
  from three_stable_passes [OF assms, of P vh s]
  obtain e where "scroll_loop P vh [o1, o2, o3] s = Some e" by auto
  then have "scroll_loop P vh ([o1, o2, o3] @ rest) s = Some e"
    by (rule scroll_loop_prefix_Some)
  with s show ?thesis by simp
qed

text \<open>With failed queries in between: every stable pass that does not leave the loop
  brings it one step nearer to an exit, and there are at most four such steps.\<close>

lemma exit_progress_le: "exit_progress h st \<le> 4"
  by (auto simp: exit_progress_def min_def)

lemma iteration_progress:
  assumes "atBottom ob" and "scrollHeight ob = h" and "iteration P vh ob st = Continue st'"
  shows "exit_progress h st' = exit_progress h st + 1"
proof (cases "queried ob")
  case (Inl msg)
  with assms(3) show ?thesis
    by (auto simp: iteration_def Let_def exit_progress_def MAX_RETRY_ATTEMPTS_def
             split: if_splits)
next
  case (Inr raw)
  with assms show ?thesis
    by (auto simp: iteration_def Let_def exit_progress_def scroll_down_def
                   fold_add_url_counters MAX_NO_CONTENT_ATTEMPTS_def
             split: if_splits)
qed

lemma stable_passes_running:
  "stable_at_bottom h obs \<Longrightarrow> scroll_loop P vh obs st = None \<Longrightarrow>
   exit_progress h st + length obs \<le> 4"
proof (induction obs arbitrary: st)
  case Nil
  then show ?case by (simp add: exit_progress_le)
next
  case (Cons ob obs)
  from Cons.prems(1) have b: "atBottom ob" "scrollHeight ob = h"
    and rest: "stable_at_bottom h obs"
    by (simp_all add: stable_at_bottom_def)
  from Cons.prems(2) obtain s1 where s1: "iteration P vh ob st = Continue s1"
    and run: "scroll_loop P vh obs s1 = None"
    by (auto split: if_splits step.splits)
  from Cons.IH [OF rest run] iteration_progress [OF b s1] show ?case by simp
qed

lemma exit_within_five_stable_passes:
  assumes "stable_at_bottom h [o1, o2, o3, o4, o5]"
  shows "scroll_loop P vh (pre @ [o1, o2, o3, o4, o5] @ rest) st \<noteq> None"
proof (cases "scroll_loop P vh pre st")
  case (Some e)
  then show ?thesis by (simp add: scroll_loop_prefix_Some)
next
  case None
  then obtain s where s: "\<And>r. scroll_loop P vh (pre @ r) st = scroll_loop P vh r s"
    using scroll_loop_running by blast
  have "scroll_loop P vh [o1, o2, o3, o4, o5] s \<noteq> None"
  proof
    assume "scroll_loop P vh [o1, o2, o3, o4, o5] s = None"
    from stable_passes_running [OF assms this] show False by simp
  qed
  then obtain e where "scroll_loop P vh [o1, o2, o3, o4, o5] s = Some e" by auto
  then have "scroll_loop P vh ([o1, o2, o3, o4, o5] @ rest) s = Some e"
    by (rule scroll_loop_prefix_Some)
  with s show ?thesis by simp
qed

text \<open>
  Claim C2, as the code has it. Let the page be at its bottom with one scrollable height
  from the pass \<open>o1\<close> on, whatever passes came before and from whatever state.
  If the DOM query throws in none of \<open>o1\<close>, \<open>o2\<close>, \<open>o3\<close>, the loop has been left by the
  end of \<open>o3\<close>: within two passes after the height has become stable. If queries throw,
  each failed pass is retried and costs one more pass, and the loop has been left by the
  end of \<open>o5\<close>, four passes after the height has become stable, at the latest; it does
  not run on. The loop may be left earlier, and by cancellation or by the fatal error of
  the retry budget as well as by convergence.
\<close>

theorem converges_after_stable:
  "(stable_at_bottom h [o1, o2, o3] \<and>
    \<not> query_fails o1 \<and> \<not> query_fails o2 \<and> \<not> query_fails o3 \<longrightarrow>
      scroll_loop P vh (pre @ [o1, o2, o3] @ rest) st \<noteq> None)
   \<and> (stable_at_bottom h [o1, o2, o3, o4, o5] \<longrightarrow>
      scroll_loop P vh (pre @ [o1, o2, o3, o4, o5] @ rest) st \<noteq> None)"
proof (intro conjI impI)
  assume "stable_at_bottom h [o1, o2, o3] \<and>
    \<not> query_fails o1 \<and> \<not> query_fails o2 \<and> \<not> query_fails o3"
  then show "scroll_loop P vh (pre @ [o1, o2, o3] @ rest) st \<noteq> None"
    using exit_within_three_stable_passes [of h o1 o2 o3 P vh pre rest st] by blast
next
  assume "stable_at_bottom h [o1, o2, o3, o4, o5]"
  then show "scroll_loop P vh (pre @ [o1, o2, o3, o4, o5] @ rest) st \<noteq> None"
    by (rule exit_within_five_stable_passes)
qed

theorem converges_after_stable_witness:
  "stable_at_bottom 850 [grown_first_pass, grown_pass, grown_pass]
   \<and> \<not> query_fails grown_first_pass \<and> \<not> query_fails grown_pass
   \<and> scroll_loop scheme_protocol 800
        ([] @ [grown_first_pass, grown_pass, grown_pass] @ []) (initial_state 820)
       \<noteq> None
   \<and> stable_at_bottom 850
        [grown_first_pass, grown_failing_pass, grown_pass, grown_failing_pass, grown_pass]
   \<and> scroll_loop scheme_protocol 800
        ([] @
         [grown_first_pass, grown_failing_pass, grown_pass, grown_failing_pass, grown_pass]
         @ [])
        (initial_state 820)
       \<noteq> None"
proof -
  have stable: "stable_at_bottom 850 [grown_first_pass, grown_pass, grown_pass]"
    by code_simp
  have ok: "\<not> query_fails grown_first_pass" "\<not> query_fails grown_pass"
    by code_simp+
  have stable': "stable_at_bottom 850
        [grown_first_pass, grown_failing_pass, grown_pass, grown_failing_pass, grown_pass]"
    by code_simp
  from converges_after_stable
         [of 850 grown_first_pass grown_pass grown_pass scheme_protocol 800 "[]" "[]"
             "initial_state 820"]
       stable ok
  have three: "scroll_loop scheme_protocol 800
        ([] @ [grown_first_pass, grown_pass, grown_pass] @ []) (initial_state 820)
       \<noteq> None"
    by blast
  from converges_after_stable
         [of 850 grown_first_pass grown_failing_pass grown_pass scheme_protocol 800
             "[]" "[]" "initial_state 820" grown_failing_pass grown_pass]
       stable'
  have five: "scroll_loop scheme_protocol 800
        ([] @
         [grown_first_pass, grown_failing_pass, grown_pass, grown_failing_pass, grown_pass]
         @ [])
        (initial_state 820)
       \<noteq> None"
    by blast
  from stable ok three stable' five show ?thesis by blast
qed

text \<open>
  Claim C2 as stated fails when a DOM query throws while the height is stable: the
  failed pass is retried and does no stagnation bookkeeping. Below the page is at its
  bottom with height 850 from the first pass on (it was 820 high when the scan started);
  the second pass throws; after the third pass, two passes after the height became
  stable, the loop is still running.
\<close>

theorem stable_but_still_running:
  "stable_at_bottom 850 [grown_first_pass, grown_failing_pass, grown_pass]
   \<and> scroll_loop scheme_protocol 800
        [grown_first_pass, grown_failing_pass, grown_pass] (initial_state 820)
       = None"
  by code_simp

subsection \<open>Cancellation, empty results and failed queries\<close>

text \<open>A test of the flag that reads it set ends the scan as aborted, with nothing
  saved.\<close>

lemma cancelled_at_test:
  assumes "meta.name m \<noteq> []"
    and "scroll_loop P vh pre (initial_state h0) = None"
    and "abort_requested ob"
  shows "(\<exists>st. scroll_loop P vh (pre @ ob # rest) (initial_state h0) = Some (Cancelled st))
         \<and> performSmartScrape P m h0 vh (pre @ ob # rest) href now1 now2 fault stored =
             Some (Aborted ''Scrape cancelled by user'', stored)"
proof -
  from scroll_loop_running [OF assms(2)] obtain st' where
    "scroll_loop P vh (pre @ ob # rest) (initial_state h0) = scroll_loop P vh (ob # rest) st'"
    by blast
  with assms(3) have
    c: "scroll_loop P vh (pre @ ob # rest) (initial_state h0) = Some (Cancelled st')"
    by simp
  with assms(1) have
    "performSmartScrape P m h0 vh (pre @ ob # rest) href now1 now2 fault stored =
       Some (Aborted ''Scrape cancelled by user'', stored)"
    by (simp add: performSmartScrape_def)
  with c show ?thesis by blast
qed

lemma handle_keeps_aborted:
  "e \<noteq> Message StartScrape \<Longrightarrow> scrapingAborted a \<Longrightarrow> scrapingAborted (handle pm e a)"
proof (cases e)
  case (Message act)
  assume "e \<noteq> Message StartScrape" and set: "scrapingAborted a"
  with Message have "act \<noteq> StartScrape" by simp
  with Message set show ?thesis
    by (cases act) (simp_all split: sum.splits)
next
  case ScanSettled
  assume "scrapingAborted a"
  with ScanSettled show ?thesis by simp
qed

lemma handle_all_keeps_aborted:
  "Message StartScrape \<notin> set evs \<Longrightarrow> scrapingAborted a \<Longrightarrow>
   scrapingAborted (handle_all pm evs a)"
  unfolding handle_all_def
  by (induction evs arbitrary: a) (auto simp: handle_keeps_aborted)

lemma aborted_until_next_start:
  assumes "Message StartScrape \<notin> set later"
  shows "scrapingAborted (handle_all pm (earlier @ Message AbortScrape # later) a)"
proof -
  have "handle_all pm (earlier @ Message AbortScrape # later) a =
        handle_all pm later (handle pm (Message AbortScrape) (handle_all pm earlier a))"
    by (simp add: handle_all_def)
  moreover have "scrapingAborted (handle pm (Message AbortScrape) (handle_all pm earlier a))"
    by simp
  ultimately show ?thesis
    using assms by (simp add: handle_all_keeps_aborted)
qed

lemma passes_seen_append:
  "\<exists>a'. \<forall>rest. passes_seen pm a (pre @ rest) = passes_seen pm a pre @ passes_seen pm a' rest"
proof (induction pre arbitrary: a)
  case Nil
  show ?case by auto
next
  case (Cons step pre)
  obtain evs ob where step: "step = (evs, ob)" by (cases step)
  from Cons.IH [of "handle_all pm evs a"] obtain a' where
    "\<forall>rest. passes_seen pm (handle_all pm evs a) (pre @ rest) =
            passes_seen pm (handle_all pm evs a) pre @ passes_seen pm a' rest"
    by blast
  with step show ?case by auto
qed

text \<open>
  Claim C5, as the code has it. Let the loop of a scan be running after the passes of the
  timeline \<open>pre\<close> (whatever it has captured by then). Let an \<^verbatim>\<open>abort_scrape\<close> be
  handled during the wait that follows, and no \<^verbatim>\<open>start_scrape\<close> between it and the
  next test of the flag (other events may come before and after it). Then that test
  reads the flag set, the loop is left as cancelled with the captured images of that
  moment, the scan resolves with \<^verbatim>\<open>{status: "aborted"}\<close>, and the stored value is the one
  the scan started with: nothing is saved.
\<close>

theorem abort_seen_at_next_test_discards:
  assumes "meta.name m \<noteq> []"
    and "scroll_loop P vh (passes_seen pm a pre) (initial_state h0) = None"
    and "Message StartScrape \<notin> set later"
  shows "(\<exists>st. scroll_loop P vh
                 (passes_seen pm a (pre @ (earlier @ Message AbortScrape # later, ob) # rest))
                 (initial_state h0) = Some (Cancelled st))
         \<and> performSmartScrape P m h0 vh
               (passes_seen pm a (pre @ (earlier @ Message AbortScrape # later, ob) # rest))
               href now1 now2 fault stored =
             Some (Aborted ''Scrape cancelled by user'', stored)"
proof -
  from passes_seen_append [of pm a pre] obtain a' where
    split: "passes_seen pm a (pre @ (earlier @ Message AbortScrape # later, ob) # rest) =
            passes_seen pm a pre @
            passes_seen pm a' ((earlier @ Message AbortScrape # later, ob) # rest)"
    by blast
  let ?ob = "ob\<lparr>abort_requested :=
                  scrapingAborted (handle_all pm (earlier @ Message AbortScrape # later) a')\<rparr>"
  let ?rest = "passes_seen pm (handle_all pm (earlier @ Message AbortScrape # later) a') rest"
  have seen: "passes_seen pm a' ((earlier @ Message AbortScrape # later, ob) # rest) =
              ?ob # ?rest"
    by simp
  have "abort_requested ?ob"
    using aborted_until_next_start [OF assms(3), of pm earlier a'] by simp
  from cancelled_at_test [OF assms(1) assms(2) this, of ?rest href now1 now2 fault stored]
  show ?thesis
    unfolding split seen .
qed

theorem abort_seen_at_next_test_discards_witness:
  "Message StartScrape \<notin> set [Message Ping]
   \<and> scroll_loop scheme_protocol 800
        (passes_seen (Inr airbnb_meta) scanning
           ([([Message Ping], top_pass)] @
            ([Message GetMeta] @ Message AbortScrape # [Message Ping], top_pass) # []))
        (initial_state 1000) =
       Some (Cancelled
         \<lparr>capturedImages = [''https://cdn.example.com/1.png''],
          scannedUrlSet = {''https://cdn.example.com/1.png''},
          retryCount = 0, totalHeight = 1000, noNewContentCount = 0, scrollPosition = 800,
          slept = [500, 500]\<rparr>)
   \<and> performSmartScrape scheme_protocol airbnb_meta 1000 800
        (passes_seen (Inr airbnb_meta) scanning
           ([([Message Ping], top_pass)] @
            ([Message GetMeta] @ Message AbortScrape # [Message Ping], top_pass) # []))
        ''https://mobbin.com/apps/airbnb/screens'' 3000 3000 NoFault (Some [spotify]) =
       Some (Aborted ''Scrape cancelled by user'', Some [spotify])"
proof -
  have named: "meta.name airbnb_meta \<noteq> []"
    by (simp add: airbnb_meta_def)
  have running:
    "scroll_loop scheme_protocol 800
       (passes_seen (Inr airbnb_meta) scanning [([Message Ping], top_pass)])
       (initial_state 1000) = None"
    by code_simp
  have no_start: "Message StartScrape \<notin> set [Message Ping]"
    by simp
  have state: "scroll_loop scheme_protocol 800
        (passes_seen (Inr airbnb_meta) scanning
           ([([Message Ping], top_pass)] @
            ([Message GetMeta] @ Message AbortScrape # [Message Ping], top_pass) # []))
        (initial_state 1000) =
       Some (Cancelled
         \<lparr>capturedImages = [''https://cdn.example.com/1.png''],
          scannedUrlSet = {''https://cdn.example.com/1.png''},
          retryCount = 0, totalHeight = 1000, noNewContentCount = 0, scrollPosition = 800,
          slept = [500, 500]\<rparr>)"
    by code_simp
  from abort_seen_at_next_test_discards
         [OF named running no_start, of "[Message GetMeta]" top_pass "[]"
             "''https://mobbin.com/apps/airbnb/screens''" 3000 3000 NoFault "Some [spotify]"]
       no_start state
  show ?thesis by blast
qed

text \<open>
  Claim C5 as stated fails when the flag is cleared again before the loop tests it. On
  the page below the first pass captures one image. During the wait after it the
  listener handles \<^verbatim>\<open>abort_scrape\<close>, which sets the flag, and then a \<^verbatim>\<open>start_scrape\<close>,
  which is accepted and clears it. The second pass of the first scan reads the flag
  clear, converges, and the scan saves its image.
\<close>

theorem abort_cleared_by_restart_is_saved:
  "iteration scheme_protocol 800 short_pass (initial_state 800) =
     Continue
       \<lparr>capturedImages = [''https://cdn.example.com/1.png''],
        scannedUrlSet = {''https://cdn.example.com/1.png''},
        retryCount = 0, totalHeight = 800, noNewContentCount = 1, scrollPosition = 800,
        slept = [500, 500]\<rparr>
   \<and> scrapingAborted (handle (Inr airbnb_first_meta) (Message AbortScrape) scanning)
   \<and> onMessage (Inr airbnb_first_meta) StartScrape
         (handle (Inr airbnb_first_meta) (Message AbortScrape) scanning) =
       (ScanLaunched, \<lparr>isScraping = True, scrapingAborted = False\<rparr>)
   \<and> passes_seen (Inr airbnb_first_meta) scanning abort_then_restart =
       [short_pass, short_pass]
   \<and> performSmartScrape scheme_protocol airbnb_first_meta 800 800
        (passes_seen (Inr airbnb_first_meta) scanning abort_then_restart)
        ''https://mobbin.com/apps/airbnb'' 3000 3000 NoFault None =
       Some (Success 1 ''Airbnb'' False,
             Some [\<lparr>id' = ''airbnb'', name = ''Airbnb'',
                    logo = ''https://cdn.example.com/airbnb.png'',
                    sourceUrl = ''https://mobbin.com/apps/airbnb'', screenCount = 1,
                    screens = [''https://cdn.example.com/1.png''],
                    dateAdded = 3000, dateUpdated = 3000\<rparr>])"
  by code_simp

text \<open>
  Claim C6. When the loop is left by convergence (not cancelled) with no image captured,
  the scan resolves with \<^verbatim>\<open>status: "error"\<close> and the message that no screens were found,
  and the stored value is the one the scan started with.
\<close>

theorem no_screens_is_error:
  assumes "meta.name m \<noteq> []"
    and "scroll_loop P vh obs (initial_state h0) = Some (Converged st)"
    and "capturedImages st = []"
  shows "performSmartScrape P m h0 vh obs href now1 now2 fault stored =
           Some (Error ''No screens found. This might not be a valid Mobbin app page.'', stored)"
  using assms by (simp add: performSmartScrape_def)

theorem no_screens_is_error_witness:
  "performSmartScrape scheme_protocol airbnb_meta 800 800 [empty_pass, empty_pass]
     ''https://mobbin.com/apps/airbnb/screens'' 3000 3000 NoFault (Some [spotify]) =
   Some (Error ''No screens found. This might not be a valid Mobbin app page.'', Some [spotify])"
proof -
  have named: "meta.name airbnb_meta \<noteq> []"
    by (simp add: airbnb_meta_def)
  have run: "scroll_loop scheme_protocol 800 [empty_pass, empty_pass] (initial_state 800) =
     Some (Converged
       \<lparr>capturedImages = [], scannedUrlSet = {}, retryCount = 0, totalHeight = 800,
        noNewContentCount = 2, scrollPosition = 800, slept = [500, 500]\<rparr>)"
    by code_simp
  from no_screens_is_error [OF named run] show ?thesis
    by simp
qed

lemma string_of_nat_3: "string_of_nat 3 = ''3''"
  by simp

text \<open>
  Claim C7, as the code has it. A query that throws while fewer than two queries of the
  scan have failed before is caught: the pass changes nothing but \<open>retryCount\<close>, waits
  \<open>2 * SCROLL_DELAY = 1000\<close> milliseconds, the same wait at every retry, and the loop goes
  on. The third failed query of a scan (failures are counted over the whole scan) is
  fatal: the scan resolves with the error \<open>Scraping failed after 3 retries: \<dots>\<close> and the
  stored value is the one the scan started with.
\<close>

theorem retry_twice_then_fatal:
  "(queried ob = Inl msg \<and> retryCount st < 2 \<longrightarrow>
      iteration P vh ob st =
        Continue (st\<lparr>retryCount := retryCount st + 1, slept := slept st @ [1000]\<rparr>))
   \<and> (meta.name m \<noteq> [] \<and> scroll_loop P vh pre (initial_state h0) = None \<and>
       failed_queries pre = 2 \<and> \<not> abort_requested ob \<and> queried ob = Inl msg \<longrightarrow>
      performSmartScrape P m h0 vh (pre @ ob # rest) href now1 now2 fault stored =
        Some (Error (''Scraping failed after 3 retries: '' @ msg), stored))"
proof (intro conjI impI)
  assume "queried ob = Inl msg \<and> retryCount st < 2"
  then show "iteration P vh ob st =
        Continue (st\<lparr>retryCount := retryCount st + 1, slept := slept st @ [1000]\<rparr>)"
    by (simp add: iteration_def Let_def MAX_RETRY_ATTEMPTS_def SCROLL_DELAY_def)
next
  assume a: "meta.name m \<noteq> [] \<and> scroll_loop P vh pre (initial_state h0) = None \<and>
       failed_queries pre = 2 \<and> \<not> abort_requested ob \<and> queried ob = Inl msg"
  then have run: "scroll_loop P vh pre (initial_state h0) = None" by simp
  from scroll_loop_running [OF run] obtain st' where
    r: "retryCount st' = retryCount (initial_state h0) + failed_queries pre" and
    c: "\<forall>rest. scroll_loop P vh (pre @ rest) (initial_state h0) = scroll_loop P vh rest st'"
    by blast
  from r a have two: "retryCount st' = 2" by (simp add: initial_state_def)
  from c have
    go: "scroll_loop P vh (pre @ ob # rest) (initial_state h0) = scroll_loop P vh (ob # rest) st'"
    by blast
  from a two have "iteration P vh ob st' = Throw (''Scraping failed after 3 retries: '' @ msg)"
    by (simp add: iteration_def Let_def MAX_RETRY_ATTEMPTS_def string_of_nat_3
             del: string_of_nat.simps)
  with a go have "scroll_loop P vh (pre @ ob # rest) (initial_state h0) =
      Some (Fatal (''Scraping failed after 3 retries: '' @ msg))"
    by simp
  with a show "performSmartScrape P m h0 vh (pre @ ob # rest) href now1 now2 fault stored =
        Some (Error (''Scraping failed after 3 retries: '' @ msg), stored)"
    by (simp add: performSmartScrape_def or_else_def)
qed

theorem retry_twice_then_fatal_witness:
  "iteration scheme_protocol 800 failing_pass (initial_state 800) =
     Continue ((initial_state 800)\<lparr>retryCount := retryCount (initial_state 800) + 1,
                                   slept := slept (initial_state 800) @ [1000]\<rparr>)
   \<and> performSmartScrape scheme_protocol airbnb_meta 800 800
        ([failing_pass, short_pass, failing_pass] @ failing_pass # [])
        ''https://mobbin.com/apps/airbnb/screens'' 3000 3000 NoFault (Some [spotify]) =
       Some (Error (''Scraping failed after 3 retries: '' @ ''The operation is insecure.''),
             Some [spotify])"
proof -
  have q: "queried failing_pass = Inl ''The operation is insecure.''"
    by (simp add: failing_pass_def pass_def)
  have fresh: "retryCount (initial_state 800) < 2"
    by (simp add: initial_state_def)
  have named: "meta.name airbnb_meta \<noteq> []"
    by (simp add: airbnb_meta_def)
  have running:
    "scroll_loop scheme_protocol 800 [failing_pass, short_pass, failing_pass] (initial_state 800)
       = None"
    by code_simp
  have failed: "failed_queries [failing_pass, short_pass, failing_pass] = 2"
    by code_simp
  have flag: "\<not> abort_requested failing_pass"
    by (simp add: failing_pass_def pass_def)
  from retry_twice_then_fatal
         [of failing_pass "''The operation is insecure.''" "initial_state 800" scheme_protocol 800
             airbnb_meta "[failing_pass, short_pass, failing_pass]" 800 "[]"
             "''https://mobbin.com/apps/airbnb/screens''" 3000 3000 NoFault "Some [spotify]"]
       q fresh named running failed flag
  show ?thesis by blast
qed

text \<open>
  Claim C7 as stated fails in its ``increasing backoff'': on the page below the first
  two queries throw, and the log of the waits reads 500 (initial delay), 1000 and 1000
  (the two retries), 500 (the scroll of the third pass): the second retry waits as long
  as the first.
\<close>

theorem retry_waits_are_equal:
  "scroll_loop scheme_protocol 800 [failing_pass, failing_pass, short_pass, short_pass]
     (initial_state 800) =
   Some (Converged
     \<lparr>capturedImages = [''https://cdn.example.com/1.png''],
      scannedUrlSet = {''https://cdn.example.com/1.png''},
      retryCount = 2, totalHeight = 800, noNewContentCount = 2, scrollPosition = 800,
      slept = [500, 1000, 1000, 500]\<rparr>)"
  by code_simp

subsection \<open>The store upsert\<close>

lemma findIndex_None: "findIndex p xs = None \<longleftrightarrow> (\<forall>x \<in> set xs. \<not> p x)"
  by (induction xs) auto

lemma findIndex_Some:
  "findIndex p xs = Some i \<longleftrightarrow> i < length xs \<and> p (xs ! i) \<and> (\<forall>j < i. \<not> p (xs ! j))"
proof (induction xs arbitrary: i)
  case Nil
  then show ?case by simp
next
  case (Cons x xs)
  show ?case
  proof (cases "p x")
    case True
    then show ?thesis by (cases i) auto
  next
    case False
    show ?thesis
    proof (cases i)
      case 0
      with False show ?thesis by auto
    next
      case (Suc k)
      have "(\<forall>j < Suc k. \<not> p ((x # xs) ! j)) \<longleftrightarrow> (\<forall>j < k. \<not> p (xs ! j))"
        using False by (auto simp: less_Suc_eq_0_disj)
      with Suc False Cons.IH [of k] show ?thesis by auto
    qed
  qed
qed




text \<open>
  Claim C4 on the code. Three saves from an empty store. Spotify is saved from a page
  address ending in \<open>screens\<close> (id \<open>screens\<close>), then Airbnb from an address ending in
  \<open>airbnb\<close> (id \<open>airbnb\<close>): no two names and no two ids are equal. Then Airbnb is
  scanned again, from an address ending in \<open>screens\<close>. The first match is the Airbnb
  entry (by name); it is overwritten and now has the id \<open>screens\<close>, which the untouched
  Spotify entry has as well. The invariant is lost.
\<close>

theorem upsert_can_duplicate_an_id:
  "saveToStorage ''https://mobbin.com/apps/spotify/screens'' 1000 1000 NoFault None
      [''https://cdn.example.com/s1.png''] spotify_screens_meta =
     Inr (Success 1 ''Spotify'' False, Some [spotify])
   \<and> saveToStorage ''https://mobbin.com/apps/airbnb'' 2000 2000 NoFault (Some [spotify])
        [''https://cdn.example.com/a1.png''] airbnb_first_meta =
      Inr (Success 1 ''Airbnb'' False, Some [airbnb, spotify])
   \<and> no_shared_name_or_id [airbnb, spotify]
   \<and> saveToStorage ''https://mobbin.com/apps/airbnb/screens'' 3000 3000 NoFault
        (Some [airbnb, spotify]) [''https://cdn.example.com/a1.png''] airbnb_meta =
      Inr (Success 1 ''Airbnb'' True,
           Some [\<lparr>id' = ''screens'', name = ''Airbnb'',
                  logo = ''https://cdn.example.com/airbnb.png'',
                  sourceUrl = ''https://mobbin.com/apps/airbnb/screens'', screenCount = 1,
                  screens = [''https://cdn.example.com/a1.png''],
                  dateAdded = 2000, dateUpdated = 3000\<rparr>,
                 spotify])
   \<and> id' spotify = ''screens''
   \<and> \<not> no_shared_name_or_id
          [\<lparr>id' = ''screens'', name = ''Airbnb'',
            logo = ''https://cdn.example.com/airbnb.png'',
            sourceUrl = ''https://mobbin.com/apps/airbnb/screens'', screenCount = 1,
            screens = [''https://cdn.example.com/a1.png''],
            dateAdded = 2000, dateUpdated = 3000\<rparr>,
           spotify]"
  by code_simp

text \<open>
  When the entries with the scraped name and the entries with the derived id are one and
  the same entry (or there are none), the upsert keeps names and ids unique.
\<close>

lemma upsert_keeps_invariant:
  assumes inv: "no_shared_name_or_id apps"
    and same: "\<forall>a \<in> set apps. \<forall>b \<in> set apps.
                 app.name a = meta.name m \<and> id' b = appId href m \<longrightarrow> a = b"
  shows "no_shared_name_or_id (upsert href now1 now2 orderedImages m apps)"
proof (cases "findIndex (is_duplicate href m) apps")
  case None
  then have "\<forall>a \<in> set apps. app.name a \<noteq> meta.name m \<and> id' a \<noteq> appId href m"
    by (auto simp: findIndex_None is_duplicate_def)
  with inv None show ?thesis
    by (auto simp: upsert_def no_shared_name_or_id_def newAppData_def)
next
  case (Some i)
  then have i: "i < length apps" and dup: "is_duplicate href m (apps ! i)"
    by (simp_all add: findIndex_Some)
  let ?r = "(newAppData href now1 now2 orderedImages m)\<lparr>dateAdded := dateAdded (apps ! i)\<rparr>"
  have names: "meta.name m \<notin> set (map app.name apps) - {map app.name apps ! i}"
  proof
    assume "meta.name m \<in> set (map app.name apps) - {map app.name apps ! i}"
    then obtain a where a: "a \<in> set apps" "app.name a = meta.name m"
      and ne: "meta.name m \<noteq> app.name (apps ! i)"
      using i by auto
    from dup ne have "id' (apps ! i) = appId href m"
      by (auto simp: is_duplicate_def)
    with same a i have "a = apps ! i" by auto
    with a ne show False by simp
  qed
  have ids: "appId href m \<notin> set (map id' apps) - {map id' apps ! i}"
  proof
    assume "appId href m \<in> set (map id' apps) - {map id' apps ! i}"
    then obtain b where b: "b \<in> set apps" "id' b = appId href m"
      and ne: "appId href m \<noteq> id' (apps ! i)"
      using i by auto
    from dup ne have "app.name (apps ! i) = meta.name m"
      by (auto simp: is_duplicate_def)
    with same b i have "apps ! i = b" by auto
    with b ne show False by simp
  qed
  have "map app.name (apps[i := ?r]) = (map app.name apps)[i := meta.name m]"
    by (simp add: map_update newAppData_def)
  moreover have "map id' (apps[i := ?r]) = (map id' apps)[i := appId href m]"
    by (simp add: map_update newAppData_def)
  moreover from inv names have "distinct ((map app.name apps)[i := meta.name m])"
    unfolding no_shared_name_or_id_def by (intro distinct_list_update) simp_all
  moreover from inv ids have "distinct ((map id' apps)[i := appId href m])"
    unfolding no_shared_name_or_id_def by (intro distinct_list_update) simp_all
  ultimately show ?thesis
    using Some by (simp add: upsert_def no_shared_name_or_id_def)
qed

subsection \<open>The derived identity\<close>

lemma split_no_sep: "sep \<notin> set s \<Longrightarrow> split sep s = [s]"
  by (induction s) auto

lemma split_single: "split sep s = [p] \<Longrightarrow> sep \<notin> set s"
proof (induction s arbitrary: p)
  case Nil
  then show ?case by simp
next
  case (Cons c cs)
  show ?case
  proof (cases "c = sep")
    case True
    with Cons.prems split_not_Nil [of sep cs] show ?thesis by simp
  next
    case False
    with Cons.prems split_not_Nil [of sep cs] obtain q where "split sep cs = [q]"
      by (auto split: list.splits)
    with Cons.IH False show ?thesis by auto
  qed
qed

text \<open>The last piece of a split is the text after the last separator.\<close>

lemma last_split:
  "last (split sep s) = rev (takeWhile (\<lambda>c. c \<noteq> sep) (rev s))"
proof (induction s)
  case Nil
  then show ?case by simp
next
  case (Cons c cs)
  show ?case
  proof (cases "c = sep")
    case True
    with Cons.IH split_not_Nil [of sep cs] show ?thesis
      by (simp add: takeWhile_tail)
  next
    case False
    show ?thesis
    proof (cases "sep \<in> set cs")
      case True
      then have "\<forall>p. split sep cs \<noteq> [p]" using split_single by blast
      then obtain p q ps where sp: "split sep cs = p # q # ps"
        using split_not_Nil [of sep cs]
        by (cases "split sep cs"; cases "tl (split sep cs)") auto
      from True have
        "takeWhile (\<lambda>c. c \<noteq> sep) (rev cs @ [c]) = takeWhile (\<lambda>c. c \<noteq> sep) (rev cs)"
        by (simp add: takeWhile_append1)
      with Cons.IH sp False show ?thesis by simp
    next
      case nf: False
      have tw: "takeWhile (\<lambda>c. c \<noteq> sep) (rev (c # cs)) = rev (c # cs)"
        unfolding takeWhile_eq_all_conv using nf False by auto
      have "last (split sep (c # cs)) = c # cs"
        using nf False by (simp add: split_no_sep)
      then show ?thesis unfolding tw by simp
    qed
  qed
qed

text \<open>The record of a save, as it lies in the sequence the upsert builds.\<close>

lemma upsert_stores_record:
  "\<exists>a \<in> set (upsert href now1 now2 orderedImages m apps).
      app.name a = meta.name m \<and> screens a = orderedImages \<and> dateUpdated a = now2 \<and>
      id' a =
        (if rev (takeWhile (\<lambda>c. c \<noteq> CHR ''/'') (rev href)) \<noteq> []
         then rev (takeWhile (\<lambda>c. c \<noteq> CHR ''/'') (rev href))
         else toLowerCase (replace_whitespace_runs (meta.name m)))"
proof -
  have id: "appId href m =
        (if rev (takeWhile (\<lambda>c. c \<noteq> CHR ''/'') (rev href)) \<noteq> []
         then rev (takeWhile (\<lambda>c. c \<noteq> CHR ''/'') (rev href))
         else toLowerCase (replace_whitespace_runs (meta.name m)))"
    by (simp add: appId_def or_else_def last_split)
  show ?thesis
  proof (cases "findIndex (is_duplicate href m) apps")
    case None
    then have "newAppData href now1 now2 orderedImages m \<in> set (upsert href now1 now2 orderedImages m apps)"
      by (simp add: upsert_def)
    then show ?thesis
      using id by (intro bexI [of _ "newAppData href now1 now2 orderedImages m"])
                  (simp_all add: newAppData_def)
  next
    case (Some i)
    then have "i < length apps" by (simp add: findIndex_Some)
    with Some have
      "(newAppData href now1 now2 orderedImages m)\<lparr>dateAdded := dateAdded (apps ! i)\<rparr>
         \<in> set (upsert href now1 now2 orderedImages m apps)"
      by (simp add: upsert_def set_update_memI)
    then show ?thesis
      using id
      by (intro bexI [of _ "(newAppData href now1 now2 orderedImages m)
                               \<lparr>dateAdded := dateAdded (apps ! i)\<rparr>"])
         (simp_all add: newAppData_def)
  qed
qed

text \<open>
  Claim C8, as the code has it. The record a save stores has as its id the last piece of
  the page address \<^verbatim>\<open>window.location.href\<close> split at slashes, that is, the text after
  its last slash: the last path segment of an address that ends with its path, empty
  when the address ends in a slash. Only when that piece is empty the id is the name with
  every whitespace run replaced by a hyphen and then lower-cased.
\<close>

theorem stored_id_is_text_after_last_slash:
  "\<exists>r apps'.
      saveToStorage href now1 now2 NoFault stored orderedImages m = Inr (r, Some apps') \<and>
      (\<exists>a \<in> set apps'.
          app.name a = meta.name m \<and> screens a = orderedImages \<and> dateUpdated a = now2 \<and>
          id' a =
            (if rev (takeWhile (\<lambda>c. c \<noteq> CHR ''/'') (rev href)) \<noteq> []
             then rev (takeWhile (\<lambda>c. c \<noteq> CHR ''/'') (rev href))
             else toLowerCase (replace_whitespace_runs (meta.name m))))"
  using upsert_stores_record [of href now1 now2 orderedImages m "stored_apps stored"]
  by (simp add: saveToStorage_def Let_def)

text \<open>The slug of a name with a Latin-1 capital and a no-break space, on an address that
  ends in a slash: the capital is lower-cased, the no-break space becomes a hyphen.\<close>

lemma slug_of_latin1_name:
  "appId ''https://mobbin.com/'' evian_meta = CHR 0xE9 # ''vian-water''"
  by code_simp

text \<open>
  Claim C8 as stated fails on an address that ends in a slash: its last non-empty path
  segment is \<open>foo\<close>, the id the code derives is the slug of the name.
\<close>

theorem id_of_trailing_slash_is_slug:
  "appId ''https://mobbin.com/apps/foo/'' foo_bar_meta = ''foo-bar''
   \<and> path_segments ''https://mobbin.com/apps/foo/'' = [''apps'', ''foo'']
   \<and> spec_id ''https://mobbin.com/apps/foo/'' foo_bar_meta = ''foo''"
  by code_simp

subsection \<open>What holds of every captured address\<close>

lemma hd_split_no_sep: "sep \<notin> set (hd (split sep s))"
  by (induction s) (auto split: list.splits)

lemma extract_image_no_query:
  "\<forall>u \<in> set urls. CHR ''?'' \<notin> set u \<Longrightarrow>
   \<forall>u \<in> set (extract_image i urls). CHR ''?'' \<notin> set u"
  by (auto simp: extract_image_def hd_split_no_sep)

lemma fold_extract_image_no_query:
  "\<forall>u \<in> set urls. CHR ''?'' \<notin> set u \<Longrightarrow>
   \<forall>u \<in> set (fold extract_image rawImages urls). CHR ''?'' \<notin> set u"
proof (induction rawImages arbitrary: urls)
  case Nil
  then show ?case by simp
next
  case (Cons i rawImages)
  from Cons.prems have "\<forall>u \<in> set (extract_image i urls). CHR ''?'' \<notin> set u"
    by (rule extract_image_no_query)
  from Cons.IH [OF this] show ?case by simp
qed

lemma extractImagesFromDOM_no_query:
  "u \<in> set (extractImagesFromDOM rawImages) \<Longrightarrow> CHR ''?'' \<notin> set u"
  using fold_extract_image_no_query [of "[]" rawImages]
  by (simp add: extractImagesFromDOM_def)

lemma batches_no_query:
  "u \<in> set (concat (batches obs)) \<Longrightarrow> CHR ''?'' \<notin> set u"
  by (auto simp: batches_def batch_of_def extractImagesFromDOM_no_query split: sum.splits)

text \<open>
  The part of claim C9 that the code keeps: every captured address of a converged run has
  no question mark, is not empty and parses with the protocol \<open>http:\<close> or \<open>https:\<close>.
\<close>

lemma captured_valid_without_query:
  assumes "scroll_loop P vh obs (initial_state h0) = Some (Converged st)"
    and "scroll_loop P vh (butlast obs) (initial_state h0) = None"
    and "u \<in> set (capturedImages st)"
  shows "CHR ''?'' \<notin> set u \<and> u \<noteq> [] \<and> (P u = Some ''http:'' \<or> P u = Some ''https:'')"
proof -
  have "collected P [] (initial_state h0)"
    by (simp add: collected_def initial_state_def)
  from scroll_loop_collected [OF this assms(1,2)]
  have "set (capturedImages st) = set (filter (isValidImageUrl P) (concat (batches obs)))"
    by (simp add: collected_def set_dedupe)
  with assms(3) have "u \<in> set (concat (batches obs))" and v: "isValidImageUrl P u"
    by auto
  then have "CHR ''?'' \<notin> set u"
    using batches_no_query by blast
  moreover from v have "u \<noteq> [] \<and> (P u = Some ''http:'' \<or> P u = Some ''https:'')"
    by (auto simp: isValidImageUrl_def split: if_splits option.splits)
  ultimately show ?thesis by blast
qed

text \<open>A pass only appends to the captured sequence: what has been captured stays where
  it is.\<close>

lemma fold_add_url_appends:
  "\<exists>new. capturedImages (fold (add_url P) batch st) = capturedImages st @ new"
proof (induction batch arbitrary: st)
  case Nil
  then show ?case by simp
next
  case (Cons u batch)
  from Cons.IH [of "add_url P u st"] obtain new where
    "capturedImages (fold (add_url P) batch (add_url P u st)) =
       capturedImages (add_url P u st) @ new"
    by blast
  moreover obtain first where "capturedImages (add_url P u st) = capturedImages st @ first"
    by (cases "u \<notin> scannedUrlSet st \<and> isValidImageUrl P u") (simp_all add: add_url_def)
  ultimately show ?case by simp
qed

lemma iteration_appends:
  "iteration P vh ob st = Continue st' \<or> iteration P vh ob st = Break st' \<Longrightarrow>
   \<exists>new. capturedImages st' = capturedImages st @ new"
  using fold_add_url_appends [of P _ st]
  by (cases "queried ob")
     (auto simp: iteration_def Let_def scroll_down_def split: if_splits)

subsection \<open>Fragments of screen addresses\<close>

text \<open>
  Claim C9 on the code. \<^verbatim>\<open>extractImagesFromDOM\<close> cuts an address at its first question
  mark only. On the page below two screen images have addresses with a fragment; the one
  with a query string loses the fragment with it, the other keeps it, passes
  \<^verbatim>\<open>isValidImageUrl\<close> and is persisted with its \<open>#v2\<close>.
\<close>

theorem fragment_is_persisted:
  "performSmartScrape scheme_protocol airbnb_meta 800 800 [fragment_pass, fragment_pass]
     ''https://mobbin.com/apps/airbnb/screens'' 3000 3000 NoFault None =
   Some (Success 2 ''Airbnb'' False,
         Some [\<lparr>id' = ''screens'', name = ''Airbnb'',
                logo = ''https://cdn.example.com/airbnb.png'',
                sourceUrl = ''https://mobbin.com/apps/airbnb/screens'', screenCount = 2,
                screens = [''https://cdn.example.com/a1.png'',
                           ''https://cdn.example.com/a2.png#v2''],
                dateAdded = 3000, dateUpdated = 3000\<rparr>])"
  by code_simp

end
